theory Spec2Isabelle
  imports Main
begin

section \<open>Values\<close>

text \<open>
  The tagged runtime values of the values module: \<open>Num\<close>, \<open>Bool\<close> and the \<open>Nil\<close> object.
  The payload of a number is modelled by an integer: the arithmetic of the programs below
  is on small integers, where the host language's numbers are exact. The host's
  not-a-number, which is unequal to itself, has no counterpart here.
\<close>

datatype val = Num int | Bool bool | Nil_val

text \<open>\<open>veq\<close>: values of different tags are unequal, payloads are compared per tag.\<close>

fun veq :: "val \<Rightarrow> val \<Rightarrow> bool" where
  "veq (Num x) (Num y) = (x = y)"
| "veq (Bool x) (Bool y) = (x = y)"
| "veq Nil_val Nil_val = True"
| "veq _ _ = False"

text \<open>
  What a slot of a host array can hold: the host's \<open>null\<close>, the host's \<open>undefined\<close>
  (a read past the end of an array), or a value object.
\<close>

datatype slot = Null | Undefined | Val val

datatype error =
    InvalidRegisterIndex int
  | InvalidConstantIndex int
  | ExpectedNumber val
  | TypeError
  | RangeError
  | AlreadyDefined string
  | NotDefined string
  | EmptyBlock


section \<open>Instructions and frames\<close>

text \<open>
  An instruction is built by \<open>iMOVE(a, b)\<close>, \<open>iLOADK(a, k)\<close> or \<open>iADD(a, b, c)\<close>; the
  closure it holds is \<open>do_instr\<close> below. The operand type is a parameter: the virtual
  machine runs instructions over integers, the code generator collects instructions over
  symbolic locations.
\<close>

datatype 'a instr = MOVE 'a 'a | LOADK 'a 'a | ADD 'a 'a 'a

record frame =
  in_count :: int
  out_count :: int
  f_size :: int
  f_consts :: "val list"
  f_locals :: "string list"
  f_code :: "int instr list"

text \<open>\<open>Frame.getInstr\<close>: \<open>None\<close> is the \<open>null\<close> returned at and past the end of the code.\<close>

definition getInstr :: "frame \<Rightarrow> nat \<Rightarrow> int instr option" where
  "getInstr fr pc = (if pc \<ge> length (f_code fr) then None else Some (f_code fr ! pc))"

section \<open>Virtual machine\<close>

record vm =
  fn :: frame
  regs :: "slot list"
  stack :: "slot list"
  pc :: nat
  regOffset :: int

text \<open>
  Reading and writing a host array by index: a read past the end gives \<open>undefined\<close>, a
  write past the end extends the array, the skipped positions reading as \<open>undefined\<close>.
\<close>

definition js_get :: "slot list \<Rightarrow> nat \<Rightarrow> slot" where
  "js_get xs i = (if i < length xs then xs ! i else Undefined)"

definition js_set :: "slot list \<Rightarrow> nat \<Rightarrow> slot \<Rightarrow> slot list" where
  "js_set xs i v =
     (if i < length xs then xs[i := v]
      else xs @ replicate (i - length xs) Undefined @ [v])"

text \<open>
  The constructor with its default arguments, \<open>new VM(fn)\<close>. \<open>Array(n)\<close> raises a range
  error unless \<open>n\<close> is an array length, that is, \<open>0 \<le> n < 2^32\<close>.
\<close>

definition VM_new :: "frame \<Rightarrow> error + vm" where
  "VM_new f =
     (if f_size f < 0 \<or> f_size f > 4294967295 then Inl RangeError
      else Inr \<lparr> fn = f, regs = replicate (nat (f_size f)) Null, stack = [], pc = 0,
                 regOffset = 0 \<rparr>)"

definition testRegIndex :: "vm \<Rightarrow> int \<Rightarrow> error option" where
  "testRegIndex m i =
     (if i < 0 \<or> i \<ge> f_size (fn m) then Some (InvalidRegisterIndex i) else None)"

definition testConstIndex :: "vm \<Rightarrow> int \<Rightarrow> error option" where
  "testConstIndex m i =
     (let j = - i - 1 in
      if j < 0 \<or> j \<ge> int (length (f_consts (fn m))) then Some (InvalidConstantIndex i)
      else None)"

definition getLocal :: "vm \<Rightarrow> int \<Rightarrow> error + slot" where
  "getLocal m i =
     (case testRegIndex m i of Some e \<Rightarrow> Inl e | None \<Rightarrow> Inr (js_get (regs m) (nat i)))"

text \<open>
  A failing \<open>setLocal\<close> returns, with the error, the machine as the throw leaves it: the
  machine object outlives the exception, and the index test comes before the write.
\<close>

definition setLocal :: "vm \<Rightarrow> int \<Rightarrow> slot \<Rightarrow> (error \<times> vm) + vm" where
  "setLocal m i v =
     (case testRegIndex m i of
        Some e \<Rightarrow> Inl (e, m)
      | None \<Rightarrow> Inr (m\<lparr>regs := js_set (regs m) (nat i) v\<rparr>))"

definition getConst :: "vm \<Rightarrow> int \<Rightarrow> error + slot" where
  "getConst m i =
     (case testConstIndex m i of
        Some e \<Rightarrow> Inl e
      | None \<Rightarrow> Inr (Val (f_consts (fn m) ! nat (- i - 1))))"

definition getVal :: "vm \<Rightarrow> int \<Rightarrow> error + slot" where
  "getVal m i = (if i < 0 then getConst m i else getLocal m i)"

text \<open>
  \<open>checkNum\<close> reads \<open>x.type\<close>: on \<open>null\<close> or \<open>undefined\<close> that read is the host's type
  error, on a value that is not a number it is the function's own error.
\<close>

fun checkNum :: "slot \<Rightarrow> error + int" where
  "checkNum (Val (Num x)) = Inr x"
| "checkNum (Val v) = Inl (ExpectedNumber v)"
| "checkNum _ = Inl TypeError"

definition pc_incr :: "vm \<Rightarrow> vm" where
  "pc_incr m = m\<lparr>pc := pc m + 1\<rparr>"

text \<open>
  The closure of an instruction. An error carries the machine as it is when the
  exception leaves the closure.
\<close>

fun do_instr :: "int instr \<Rightarrow> vm \<Rightarrow> (error \<times> vm) + vm" where
  "do_instr (MOVE a b) m =
     (case getVal m b of
        Inl e \<Rightarrow> Inl (e, m)
      | Inr v \<Rightarrow>
          (case setLocal m a v of Inl x \<Rightarrow> Inl x | Inr m' \<Rightarrow> Inr (pc_incr m')))"
| "do_instr (LOADK a k) m =
     (case getConst m k of
        Inl e \<Rightarrow> Inl (e, m)
      | Inr v \<Rightarrow>
          (case setLocal m a v of Inl x \<Rightarrow> Inl x | Inr m' \<Rightarrow> Inr (pc_incr m')))"
| "do_instr (ADD a b c) m =
     (case getVal m b of
        Inl e \<Rightarrow> Inl (e, m)
      | Inr vb \<Rightarrow>
          (case getVal m c of
             Inl e \<Rightarrow> Inl (e, m)
           | Inr vc \<Rightarrow>
               (case checkNum vb of
                  Inl e \<Rightarrow> Inl (e, m)
                | Inr x \<Rightarrow>
                    (case checkNum vc of
                       Inl e \<Rightarrow> Inl (e, m)
                     | Inr y \<Rightarrow>
                         (case setLocal m a (Val (Num (x + y))) of
                            Inl z \<Rightarrow> Inl z
                          | Inr m' \<Rightarrow> Inr (pc_incr m'))))))"

text \<open>\<open>VM.step\<close>: the boolean is the value returned, the machine is the state left.\<close>

definition step :: "vm \<Rightarrow> (error \<times> vm) + (bool \<times> vm)" where
  "step m =
     (case getInstr (fn m) (pc m) of
        None \<Rightarrow> Inr (False, m)
      | Some i \<Rightarrow> (case do_instr i m of Inl x \<Rightarrow> Inl x | Inr m' \<Rightarrow> Inr (True, m')))"

text \<open>
  A driver that calls \<open>step\<close> a given number of times and collects the values returned,
  stopping at the first error.
\<close>

fun steps :: "nat \<Rightarrow> vm \<Rightarrow> (error \<times> vm) + (bool list \<times> vm)" where
  "steps 0 m = Inr ([], m)"
| "steps (Suc n) m =
     (case step m of
        Inl x \<Rightarrow> Inl x
      | Inr (b, m') \<Rightarrow>
          (case steps n m' of Inl x \<Rightarrow> Inl x | Inr (bs, m'') \<Rightarrow> Inr (b # bs, m'')))"

text \<open>
  The driver of a caller that steps a machine until \<open>step\<close> returns false. Every
  successful step moves the program counter one closer to the end of the code, so the
  loop ends.
\<close>

function step_until_halt :: "vm \<Rightarrow> (error \<times> vm) + vm" where
  "step_until_halt m =
     (case step m of
        Inl x \<Rightarrow> Inl x
      | Inr (b, m') \<Rightarrow> if b then step_until_halt m' else Inr m')"
  by pat_completeness auto
termination
proof (relation "measure (\<lambda>m. length (f_code (fn m)) - pc m)")
  show "wf (measure (\<lambda>m. length (f_code (fn m)) - pc m))" by simp
next
  fix m :: vm and x2 b m'
  assume s: "step m = Inr x2" and x: "(b, m') = x2" and b: "b"
  from s x b obtain i where i: "getInstr (fn m) (pc m) = Some i" and d: "do_instr i m = Inr m'"
    by (auto simp: step_def split: option.splits sum.splits)
  from i have lt: "pc m < length (f_code (fn m))"
    by (simp add: getInstr_def split: if_splits)
  from d have "fn m' = fn m \<and> pc m' = pc m + 1"
    by (cases i) (auto simp: setLocal_def pc_incr_def split: sum.splits option.splits)
  with lt show "(m', m) \<in> measure (\<lambda>m. length (f_code (fn m)) - pc m)"
    by simp
qed

declare step_until_halt.simps [simp del]

section \<open>Code generator\<close>

text \<open>
  The locations the generator passes around: the objects \<open>{type: "temp", index}\<close>,
  \<open>{type: "local", index}\<close> and \<open>{type: "const", value}\<close>. Where the source can hold
  \<open>null\<close> (the initial \<open>lhs\<close>) or \<open>undefined\<close> (a \<open>pop\<close> of the empty stack) in place of
  such an object, the model has a \<open>loc option\<close> and \<open>None\<close> stands for either.
\<close>

datatype loc = Temp int | Local nat | Const int

record codegen =
  g_consts :: "val list"
  g_code :: "loc instr list"
  g_locals :: "string list"
  tempCount :: int
  maxTemp :: int
  g_stack :: "loc option list"
  g_lhs :: "loc option"

definition CodeGen_new :: codegen where
  "CodeGen_new =
     \<lparr> g_consts = [], g_code = [], g_locals = [], tempCount = 0, maxTemp = - 1,
       g_stack = [], g_lhs = None \<rparr>"

definition pushLocal :: "string \<Rightarrow> codegen \<Rightarrow> nat \<times> codegen" where
  "pushLocal name g = (length (g_locals g), g\<lparr>g_locals := g_locals g @ [name]\<rparr>)"

definition pushConst :: "val \<Rightarrow> codegen \<Rightarrow> int \<times> codegen" where
  "pushConst v g = (- int (length (g_consts g)) - 1, g\<lparr>g_consts := g_consts g @ [v]\<rparr>)"

text \<open>The result stack \<open>gen.stack\<close>, its top at the head of the list.\<close>

definition push :: "loc option \<Rightarrow> codegen \<Rightarrow> codegen" where
  "push x g = g\<lparr>g_stack := x # g_stack g\<rparr>"

definition pop :: "codegen \<Rightarrow> loc option \<times> codegen" where
  "pop g = (case g_stack g of [] \<Rightarrow> (None, g) | x # xs \<Rightarrow> (x, g\<lparr>g_stack := xs\<rparr>))"

definition withTemp :: "(loc \<Rightarrow> codegen \<Rightarrow> error + codegen) \<Rightarrow> codegen \<Rightarrow> error + codegen" where
  "withTemp f g =
     (let g1 = g\<lparr>tempCount := tempCount g + 1\<rparr> in
      case f (Temp (tempCount g1 - 1)) g1 of
        Inl e \<Rightarrow> Inl e
      | Inr g2 \<Rightarrow> Inr (g2\<lparr>tempCount := tempCount g2 - 1\<rparr>))"

definition updateMaxTemp :: "loc \<Rightarrow> codegen \<Rightarrow> codegen" where
  "updateMaxTemp t g =
     (case t of Temp i \<Rightarrow> (if i > maxTemp g then g\<lparr>maxTemp := i\<rparr> else g) | _ \<Rightarrow> g)"

definition withLHS :: "loc \<Rightarrow> (codegen \<Rightarrow> error + codegen) \<Rightarrow> codegen \<Rightarrow> error + codegen" where
  "withLHS i f g =
     (let old = g_lhs g in
      case f (g\<lparr>g_lhs := Some i\<rparr>) of
        Inl e \<Rightarrow> Inl e
      | Inr g1 \<Rightarrow> Inr (g1\<lparr>g_lhs := old\<rparr>))"

text \<open>
  \<open>emit(instr, ...args)\<close>. The loop reads \<open>arg.type\<close> of every argument, which is the
  host's type error on \<open>null\<close> or \<open>undefined\<close>; otherwise it records the temporaries
  among the arguments and appends the instruction.
\<close>

fun args_of :: "'a instr \<Rightarrow> 'a list" where
  "args_of (MOVE a b) = [a, b]"
| "args_of (LOADK a k) = [a, k]"
| "args_of (ADD a b c) = [a, b, c]"

fun present :: "loc option instr \<Rightarrow> loc instr option" where
  "present (MOVE (Some a) (Some b)) = Some (MOVE a b)"
| "present (LOADK (Some a) (Some k)) = Some (LOADK a k)"
| "present (ADD (Some a) (Some b) (Some c)) = Some (ADD a b c)"
| "present _ = None"

definition emit :: "loc option instr \<Rightarrow> codegen \<Rightarrow> error + codegen" where
  "emit ins g =
     (case present ins of
        None \<Rightarrow> Inl TypeError
      | Some i \<Rightarrow>
          (let g1 = fold updateMaxTemp (args_of i) g in
           Inr (g1\<lparr>g_code := g_code g1 @ [i]\<rparr>)))"

text \<open>
  \<open>mkFrame\<close>. Its branch for an unknown location type cannot be reached from a \<open>loc\<close>.
\<close>

fun resolve :: "nat \<Rightarrow> loc \<Rightarrow> int" where
  "resolve n (Temp i) = i + int n"
| "resolve n (Local i) = int i"
| "resolve n (Const v) = v"

definition mkFrame :: "codegen \<Rightarrow> frame" where
  "mkFrame g =
     \<lparr> in_count = 0, out_count = 0,
       f_size = int (length (g_locals g)) + maxTemp g + 1,
       f_consts = g_consts g,
       f_locals = g_locals g,
       f_code = map (map_instr (resolve (length (g_locals g)))) (g_code g) \<rparr>"

section \<open>Nodes\<close>

text \<open>
  The node constructors \<open>con\<close>, \<open>add\<close>, \<open>leti\<close>, \<open>vari\<close>, \<open>set\<close> (here \<open>seti\<close>) and
  \<open>block\<close>; the closure a node holds is \<open>gen_do\<close>.
\<close>

datatype node =
    con val
  | add node node
  | leti string node
  | vari string
  | seti string node
  | block "node list"

text \<open>
  The index loops of \<open>con\<close>, \<open>leti\<close>, \<open>vari\<close> and \<open>set\<close>: the first position, counted from
  \<open>i\<close>, whose element satisfies the test.
\<close>

fun scan :: "('a \<Rightarrow> bool) \<Rightarrow> 'a list \<Rightarrow> nat \<Rightarrow> nat option" where
  "scan p [] i = None"
| "scan p (x # xs) i = (if p x then Some i else scan p xs (Suc i))"

text \<open>
  What \<open>leti\<close> and \<open>set\<close> do with the destination \<open>l\<close> once the value has been
  generated: pop its location, load or move it into \<open>l\<close> unless it is \<open>l\<close> already, and
  push \<open>l\<close>.
\<close>

definition store_into :: "nat \<Rightarrow> codegen \<Rightarrow> error + codegen" where
  "store_into i g =
     (let (v, g1) = pop g in
      case v of
        None \<Rightarrow> Inl TypeError
      | Some (Const k) \<Rightarrow>
          (case emit (LOADK (Some (Local i)) v) g1 of
             Inl e \<Rightarrow> Inl e
           | Inr g2 \<Rightarrow> Inr (push (Some (Local i)) g2))
      | Some (Local j) \<Rightarrow>
          (if j \<noteq> i then
             (case emit (MOVE (Some (Local i)) v) g1 of
                Inl e \<Rightarrow> Inl e
              | Inr g2 \<Rightarrow> Inr (push (Some (Local i)) g2))
           else Inr (push (Some (Local i)) g1))
      | Some (Temp t) \<Rightarrow>
          (case emit (MOVE (Some (Local i)) v) g1 of
             Inl e \<Rightarrow> Inl e
           | Inr g2 \<Rightarrow> Inr (push (Some (Local i)) g2)))"

text \<open>What \<open>add\<close> does in its temporary once the right operand has been generated.\<close>

definition emit_add :: "loc option \<Rightarrow> codegen \<Rightarrow> error + codegen" where
  "emit_add l g =
     (let (r, g1) = pop g in
      case emit (ADD (g_lhs g1) l r) g1 of
        Inl e \<Rightarrow> Inl e
      | Inr g2 \<Rightarrow> Inr (push (g_lhs g2) g2))"

lemma withLHS_cong [fundef_cong]:
  "i = i' \<Longrightarrow> g = g' \<Longrightarrow> (\<And>s. f s = f' s) \<Longrightarrow> withLHS i f g = withLHS i' f' g'"
  by (simp add: withLHS_def)

lemma withTemp_cong [fundef_cong]:
  "g = g' \<Longrightarrow> (\<And>t s. f t s = f' t s) \<Longrightarrow> withTemp f g = withTemp f' g'"
  by (simp add: withTemp_def)

fun gen_do :: "node \<Rightarrow> codegen \<Rightarrow> error + codegen"
  and gen_body :: "node list \<Rightarrow> loc option \<Rightarrow> codegen \<Rightarrow> error + codegen" where
  "gen_do (con v) g =
     (case scan (\<lambda>c. veq c v) (g_consts g) 0 of
        Some i \<Rightarrow> Inr (push (Some (Const (- int i - 1))) g)
      | None \<Rightarrow> (let (c, g1) = pushConst v g in Inr (push (Some (Const c)) g1)))"
| "gen_do (add lhs rhs) g =
     (case gen_do lhs g of
        Inl e \<Rightarrow> Inl e
      | Inr g1 \<Rightarrow>
          (let (l, g2) = pop g1 in
           withTemp
             (\<lambda>t g3.
                case withLHS t (\<lambda>s. gen_do rhs s) g3 of
                  Inl e \<Rightarrow> Inl e
                | Inr g4 \<Rightarrow> emit_add l g4)
             g2))"
| "gen_do (leti name v) g =
     (case scan (\<lambda>n. n = name) (g_locals g) 0 of
        Some j \<Rightarrow> Inl (AlreadyDefined name)
      | None \<Rightarrow>
          (let (i, g1) = pushLocal name g in
           withLHS (Local i)
             (\<lambda>s. case gen_do v s of Inl e \<Rightarrow> Inl e | Inr g2 \<Rightarrow> store_into i g2)
             g1))"
| "gen_do (vari name) g =
     (case scan (\<lambda>n. n = name) (g_locals g) 0 of
        Some i \<Rightarrow> Inr (push (Some (Local i)) g)
      | None \<Rightarrow> Inl (NotDefined name))"
| "gen_do (seti name v) g =
     (case scan (\<lambda>n. n = name) (g_locals g) 0 of
        Some i \<Rightarrow>
          withLHS (Local i)
            (\<lambda>s. case gen_do v s of Inl e \<Rightarrow> Inl e | Inr g2 \<Rightarrow> store_into i g2)
            g
      | None \<Rightarrow> Inl (NotDefined name))"
| "gen_do (block body) g =
     (if length body = 0 then Inl EmptyBlock else gen_body body None g)"
| "gen_body [] result g = Inr (push result g)"
| "gen_body (expr # rest) result g =
     (case gen_do expr g of
        Inl e \<Rightarrow> Inl e
      | Inr g1 \<Rightarrow> (let (r, g2) = pop g1 in gen_body rest r g2))"

definition compile :: "node \<Rightarrow> error + frame" where
  "compile n =
     (case gen_do n CodeGen_new of Inl e \<Rightarrow> Inl e | Inr g \<Rightarrow> Inr (mkFrame g))"

text \<open>
  The program the source compiles on loading:
  \<open>block([leti("a", ...), leti("b", ...), set("a", ...), set("b", ...), leti("c", ...)])\<close>.
\<close>

definition testFn :: node where
  "testFn = block [leti ''a'' (add (con (Num 2)) (con (Num 2))),
                   leti ''b'' (add (con (Num 3)) (vari ''a'')),
                   seti ''a'' (add (vari ''a'') (vari ''b'')),
                   seti ''b'' (add (vari ''b'') (add (vari ''a'') (vari ''b''))),
                   leti ''c'' (vari ''b'')]"

section \<open>Notions used in the statements\<close>

text \<open>
  The names a tree declares with \<open>leti\<close>, in the order of the generation walk (a
  \<open>leti\<close> declares its name before it generates its value).
\<close>

fun let_names :: "node \<Rightarrow> string list" where
  "let_names (con v) = []"
| "let_names (add l r) = let_names l @ let_names r"
| "let_names (leti name v) = name # let_names v"
| "let_names (vari name) = []"
| "let_names (seti name v) = let_names v"
| "let_names (block body) = concat (map let_names body)"




text \<open>
  The temporaries an instruction list names, and the number of temporary registers it
  needs: one more than the highest temporary index in it, none when it names no
  temporary.
\<close>

fun temps_of :: "loc \<Rightarrow> int list" where
  "temps_of (Temp t) = [t]"
| "temps_of _ = []"

definition instr_temps :: "loc instr \<Rightarrow> int list" where
  "instr_temps ins = concat (map temps_of (args_of ins))"





text \<open>
  Operands of a frame's instructions that pass the machine's index tests: a register
  index within the frame's size, a constant reference that decodes to a position of the
  pool; an instruction writes a register, \<open>LOADK\<close> reads a constant, the other operands
  are either.
\<close>

definition reg_in_range :: "frame \<Rightarrow> int \<Rightarrow> bool" where
  "reg_in_range fr x \<longleftrightarrow> 0 \<le> x \<and> x < f_size fr"

definition const_in_range :: "frame \<Rightarrow> int \<Rightarrow> bool" where
  "const_in_range fr x \<longleftrightarrow> x < 0 \<and> nat (- x - 1) < length (f_consts fr)"

definition operand_in_range :: "frame \<Rightarrow> int \<Rightarrow> bool" where
  "operand_in_range fr x \<longleftrightarrow> reg_in_range fr x \<or> const_in_range fr x"

fun instr_in_range :: "frame \<Rightarrow> int instr \<Rightarrow> bool" where
  "instr_in_range fr (MOVE a b) = (reg_in_range fr a \<and> operand_in_range fr b)"
| "instr_in_range fr (LOADK a k) = (reg_in_range fr a \<and> const_in_range fr k)"
| "instr_in_range fr (ADD a b c) =
     (reg_in_range fr a \<and> operand_in_range fr b \<and> operand_in_range fr c)"

fun is_index_error :: "error \<Rightarrow> bool" where
  "is_index_error (InvalidRegisterIndex i) = True"
| "is_index_error (InvalidConstantIndex i) = True"
| "is_index_error _ = False"

section \<open>Invariants of the generator\<close>

text \<open>
  The state in which \<open>add\<close> generates its right operand: one more temporary in use,
  and that temporary as the destination.
\<close>

definition enter_rhs :: "codegen \<Rightarrow> codegen" where
  "enter_rhs g = g\<lparr>tempCount := tempCount g + 1, g_lhs := Some (Temp (tempCount g))\<rparr>"

text \<open>
  What a successful \<open>gen_do\<close> leaves: the names \<open>ns\<close> appended to the locals, the
  destination and the count of temporaries in use restored, the pool and the code
  extended, and one location pushed.
\<close>

definition post :: "string list \<Rightarrow> codegen \<Rightarrow> codegen \<Rightarrow> bool" where
  "post ns g g' \<longleftrightarrow>
     g_locals g' = g_locals g @ ns \<and> g_lhs g' = g_lhs g \<and> tempCount g' = tempCount g \<and>
     (\<exists>cs. g_consts g' = g_consts g @ cs) \<and> (\<exists>is. g_code g' = g_code g @ is) \<and>
     maxTemp g \<le> maxTemp g' \<and> (\<exists>l. g_stack g' = Some l # g_stack g)"

text \<open>
  Locations that are valid in a generator state, and instructions over them: a local
  that is declared, a constant reference into the pool, a temporary the state has
  recorded in \<open>maxTemp\<close>; the first operand of an instruction is a register and the
  second operand of \<open>LOADK\<close> a constant.
\<close>

fun loc_ok :: "codegen \<Rightarrow> loc \<Rightarrow> bool" where
  "loc_ok g (Temp t) = (0 \<le> t)"
| "loc_ok g (Local i) = (i < length (g_locals g))"
| "loc_ok g (Const k) = (k < 0 \<and> nat (- k - 1) < length (g_consts g))"

fun is_reg :: "loc \<Rightarrow> bool" where
  "is_reg (Const k) = False"
| "is_reg _ = True"

definition arg_ok :: "codegen \<Rightarrow> loc \<Rightarrow> bool" where
  "arg_ok g l \<longleftrightarrow> loc_ok g l \<and> list_all (\<lambda>t. t \<le> maxTemp g) (temps_of l)"

fun instr_ok :: "codegen \<Rightarrow> loc instr \<Rightarrow> bool" where
  "instr_ok g (MOVE a b) = (is_reg a \<and> arg_ok g a \<and> arg_ok g b)"
| "instr_ok g (LOADK a k) = (is_reg a \<and> arg_ok g a \<and> \<not> is_reg k \<and> arg_ok g k)"
| "instr_ok g (ADD a b c) = (is_reg a \<and> arg_ok g a \<and> arg_ok g b \<and> arg_ok g c)"

definition gen_inv :: "codegen \<Rightarrow> bool" where
  "gen_inv g \<longleftrightarrow>
     0 \<le> tempCount g \<and> - 1 \<le> maxTemp g \<and> list_all (instr_ok g) (g_code g) \<and>
     (\<forall>l. Some l \<in> set (g_stack g) \<longrightarrow> loc_ok g l) \<and>
     (\<forall>l. g_lhs g = Some l \<longrightarrow> is_reg l \<and> loc_ok g l)"

definition extends :: "codegen \<Rightarrow> codegen \<Rightarrow> bool" where
  "extends g g' \<longleftrightarrow>
     (\<exists>xs. g_locals g' = g_locals g @ xs) \<and> (\<exists>cs. g_consts g' = g_consts g @ cs) \<and>
     maxTemp g \<le> maxTemp g'"

text \<open>
  A result of the generator that is a state, or the duplicate-declaration error for one
  of the names the trees \<open>ns\<close> declare.
\<close>

definition dup_or_ok :: "node list \<Rightarrow> error + codegen \<Rightarrow> bool" where
  "dup_or_ok ns r \<longleftrightarrow>
     (case r of Inr g' \<Rightarrow> True
      | Inl e \<Rightarrow> (case e of AlreadyDefined x \<Rightarrow> x \<in> set (concat (map let_names ns)) | _ \<Rightarrow> False))"


section \<open>Properties of the virtual machine\<close>

lemma setLocal_Inr:
  "setLocal m a v = Inr m' \<Longrightarrow> fn m' = fn m \<and> pc m' = pc m \<and> regs m' = js_set (regs m) (nat a) v
     \<and> 0 \<le> a \<and> a < f_size (fn m)"
  by (auto simp: setLocal_def testRegIndex_def split: option.splits if_splits)

lemma setLocal_Inl: "setLocal m a v = Inl (e, m') \<Longrightarrow> m' = m"
  by (auto simp: setLocal_def split: option.splits)

lemma do_instr_Inr:
  "do_instr i m = Inr m' \<Longrightarrow> fn m' = fn m \<and> pc m' = pc m + 1"
  by (cases i) (auto simp: pc_incr_def dest!: setLocal_Inr split: sum.splits)

lemma do_instr_Inl: "do_instr i m = Inl (e, m') \<Longrightarrow> m' = m"
  by (cases i) (auto dest!: setLocal_Inl split: sum.splits)

lemma do_instr_length:
  "do_instr i m = Inr m' \<Longrightarrow> int (length (regs m)) = f_size (fn m) \<Longrightarrow> length (regs m') = length (regs m)"
  by (cases i) (auto simp: pc_incr_def js_set_def dest!: setLocal_Inr split: sum.splits)

lemma step_halted: "length (f_code (fn m)) \<le> pc m \<Longrightarrow> step m = Inr (False, m)"
  by (simp add: step_def getInstr_def)

lemma step_running:
  "pc m < length (f_code (fn m)) \<Longrightarrow> step m = Inr (b, m') \<Longrightarrow>
     b \<and> fn m' = fn m \<and> pc m' = pc m + 1"
  by (auto simp: step_def getInstr_def dest!: do_instr_Inr split: sum.splits)

lemma steps_halted: "length (f_code (fn m)) \<le> pc m \<Longrightarrow> steps k m = Inr (replicate k False, m)"
  by (induction k) (simp_all add: step_halted)

lemma steps_running:
  "pc m + k \<le> length (f_code (fn m)) \<Longrightarrow> steps k m = Inr (bs, m') \<Longrightarrow>
     bs = replicate k True \<and> fn m' = fn m \<and> pc m' = pc m + k"
proof (induction k arbitrary: m bs)
  case 0
  then show ?case by simp
next
  case (Suc k)
  from Suc.prems(2) obtain b m1 bs1 where s: "step m = Inr (b, m1)"
    and r: "steps k m1 = Inr (bs1, m')" and bs: "bs = b # bs1"
    by (auto split: sum.splits)
  from Suc.prems(1) have "pc m < length (f_code (fn m))" by simp
  from step_running [OF this s] have b: "b" and f: "fn m1 = fn m" and p: "pc m1 = pc m + 1"
    by simp_all
  from Suc.prems(1) f p have "pc m1 + k \<le> length (f_code (fn m1))" by simp
  from Suc.IH [OF this r] b bs f p show ?case by simp
qed

lemma steps_add:
  "steps j m = Inr (bs, m1) \<Longrightarrow> steps k m1 = Inr (cs, m2) \<Longrightarrow> steps (j + k) m = Inr (bs @ cs, m2)"
  by (induction j arbitrary: m bs) (auto split: sum.splits)


lemma steps_regs_length:
  "steps k m = Inr (bs, m') \<Longrightarrow> int (length (regs m)) = f_size (fn m) \<Longrightarrow>
     length (regs m') = length (regs m) \<and> fn m' = fn m"
proof (induction k arbitrary: m bs)
  case 0
  then show ?case by simp
next
  case (Suc k)
  from Suc.prems(1) obtain b m1 bs1 where s: "step m = Inr (b, m1)"
    and r: "steps k m1 = Inr (bs1, m')"
    by (auto split: sum.splits)
  from s Suc.prems(2) have 1: "length (regs m1) = length (regs m) \<and> fn m1 = fn m"
    by (auto simp: step_def dest: do_instr_length do_instr_Inr split: option.splits sum.splits)
  with Suc.prems(2) have "int (length (regs m1)) = f_size (fn m1)" by simp
  from Suc.IH [OF r this] 1 show ?case by simp
qed

lemma checkNum_Inr: "checkNum s = Inr x \<longleftrightarrow> s = Val (Num x)"
  by (cases s rule: checkNum.cases) auto


subsection \<open>Claims about the virtual machine\<close>

text \<open>
  C3. A machine made by \<open>new VM(f)\<close> over a frame of \<open>n\<close> instructions, none of which
  raises an error: the first \<open>n\<close> calls of \<open>step\<close> return true, every later call returns
  false and leaves the machine as it is, and the program counter is then \<open>n\<close>.
\<close>

theorem VM_halting:
  assumes new: "VM_new f = Inr m0"
    and run: "steps (length (f_code f)) m0 = Inr (bs, m1)"
  shows "bs = replicate (length (f_code f)) True \<and> pc m1 = length (f_code f) \<and>
    (\<forall>k. steps (length (f_code f) + k) m0 =
       Inr (replicate (length (f_code f)) True @ replicate k False, m1))"
proof -
  from new have f0: "fn m0 = f" and p0: "pc m0 = 0"
    by (auto simp: VM_new_def split: if_splits)
  then have "pc m0 + length (f_code f) \<le> length (f_code (fn m0))" by simp
  from steps_running [OF this run] f0 p0
  have bs: "bs = replicate (length (f_code f)) True" and f1: "fn m1 = f"
    and p1: "pc m1 = length (f_code f)" by simp_all
  have "steps (length (f_code f) + k) m0 =
       Inr (replicate (length (f_code f)) True @ replicate k False, m1)" for k
  proof -
    have "steps k m1 = Inr (replicate k False, m1)"
      using f1 p1 by (simp add: steps_halted)
    from steps_add [OF run this] bs show ?thesis by simp
  qed
  with bs p1 show ?thesis by simp
qed

theorem VM_halting_witness:
  "\<exists>m0 m1. VM_new \<lparr> in_count = 0, out_count = 0, f_size = 2, f_consts = [Num 2],
        f_locals = [], f_code = [LOADK 0 (- 1), ADD 1 0 (- 1)] \<rparr> = Inr m0 \<and>
     steps 2 m0 = Inr ([True, True], m1) \<and> pc m1 = 2 \<and>
     steps 4 m0 = Inr ([True, True, False, False], m1)"
proof -
  let ?f = "\<lparr> in_count = 0, out_count = 0, f_size = 2, f_consts = [Num 2],
        f_locals = [], f_code = [LOADK 0 (- 1), ADD 1 0 (- 1)] \<rparr>"
  let ?m0 = "\<lparr> fn = ?f, regs = [Null, Null], stack = [], pc = 0, regOffset = 0 \<rparr>"
  let ?m1 = "\<lparr> fn = ?f, regs = [Val (Num 2), Val (Num 4)], stack = [], pc = 2, regOffset = 0 \<rparr>"
  have new: "VM_new ?f = Inr ?m0"
    by (simp add: VM_new_def numeral_2_eq_2)
  have run: "steps (length (f_code ?f)) ?m0 = Inr ([True, True], ?m1)"
    by (simp add: step_def getInstr_def getConst_def getVal_def getLocal_def setLocal_def
        testRegIndex_def testConstIndex_def js_get_def js_set_def pc_incr_def)
  have e1: "length (f_code ?f) + 2 = 4" by simp
  have e2: "replicate (length (f_code ?f)) True @ replicate 2 False = [True, True, False, False]"
    by (simp add: numeral_2_eq_2)
  from VM_halting [OF new run]
  have "steps (length (f_code ?f) + 2) ?m0 =
      Inr (replicate (length (f_code ?f)) True @ replicate 2 False, ?m1)" by blast
  then have "steps 4 ?m0 = Inr ([True, True, False, False], ?m1)"
    unfolding e1 e2 .
  moreover have "length (f_code ?f) = 2" by simp
  with run have "steps 2 ?m0 = Inr ([True, True], ?m1)" by (simp only:)
  moreover have "pc ?m1 = 2" by simp
  moreover note new
  ultimately show ?thesis by blast
qed



text \<open>
  C6. \<open>getVal\<close> on an operand reference \<open>i\<close>: a non-negative \<open>i\<close> below the frame's size
  reads register \<open>i\<close>, a negative \<open>i\<close> reads the constant at position \<open>- i - 1\<close> when the
  pool has one, and outside these ranges the call fails with an index error.
\<close>

theorem getVal_dispatch:
  "(0 \<le> i \<and> i < f_size (fn m) \<longrightarrow> getVal m i = Inr (js_get (regs m) (nat i))) \<and>
   (0 \<le> i \<and> i < f_size (fn m) \<and> int (length (regs m)) = f_size (fn m) \<longrightarrow>
      getVal m i = Inr (regs m ! nat i)) \<and>
   (0 \<le> i \<and> f_size (fn m) \<le> i \<longrightarrow> getVal m i = Inl (InvalidRegisterIndex i)) \<and>
   (i < 0 \<and> nat (- i - 1) < length (f_consts (fn m)) \<longrightarrow>
      getVal m i = Inr (Val (f_consts (fn m) ! nat (- i - 1)))) \<and>
   (i < 0 \<and> length (f_consts (fn m)) \<le> nat (- i - 1) \<longrightarrow>
      getVal m i = Inl (InvalidConstantIndex i))"
proof -
  have reg: "getVal m i = Inr (js_get (regs m) (nat i))" if "0 \<le> i" "i < f_size (fn m)"
    using that by (simp add: getVal_def getLocal_def testRegIndex_def)
  have reg': "getVal m i = Inr (regs m ! nat i)"
    if "0 \<le> i" "i < f_size (fn m)" "int (length (regs m)) = f_size (fn m)"
  proof -
    from that have "nat i < length (regs m)" by simp
    with reg [OF that(1,2)] show ?thesis by (simp add: js_get_def)
  qed
  have reg_out: "getVal m i = Inl (InvalidRegisterIndex i)" if "0 \<le> i" "f_size (fn m) \<le> i"
    using that by (simp add: getVal_def getLocal_def testRegIndex_def)
  have cst: "getVal m i = Inr (Val (f_consts (fn m) ! nat (- i - 1)))"
    if "i < 0" "nat (- i - 1) < length (f_consts (fn m))"
  proof -
    from that have "\<not> (- i - 1 < 0 \<or> int (length (f_consts (fn m))) \<le> - i - 1)" by simp
    with that(1) show ?thesis
      by (simp add: getVal_def getConst_def testConstIndex_def Let_def)
  qed
  have cst_out: "getVal m i = Inl (InvalidConstantIndex i)"
    if "i < 0" "length (f_consts (fn m)) \<le> nat (- i - 1)"
  proof -
    from that have "int (length (f_consts (fn m))) \<le> - i - 1" by simp
    with that(1) show ?thesis
      by (simp add: getVal_def getConst_def testConstIndex_def Let_def)
  qed
  from reg reg' reg_out cst cst_out show ?thesis by blast
qed

theorem getVal_dispatch_witness:
  "getVal \<lparr> fn = \<lparr> in_count = 0, out_count = 0, f_size = 2, f_consts = [Num 2],
        f_locals = [], f_code = [] \<rparr>, regs = [Null, Val (Bool True)], stack = [], pc = 0,
        regOffset = 0 \<rparr> 1 = Inr (Val (Bool True)) \<and>
   getVal \<lparr> fn = \<lparr> in_count = 0, out_count = 0, f_size = 2, f_consts = [Num 2],
        f_locals = [], f_code = [] \<rparr>, regs = [Null, Val (Bool True)], stack = [], pc = 0,
        regOffset = 0 \<rparr> 2 = Inl (InvalidRegisterIndex 2) \<and>
   getVal \<lparr> fn = \<lparr> in_count = 0, out_count = 0, f_size = 2, f_consts = [Num 2],
        f_locals = [], f_code = [] \<rparr>, regs = [Null, Val (Bool True)], stack = [], pc = 0,
        regOffset = 0 \<rparr> (- 1) = Inr (Val (Num 2)) \<and>
   getVal \<lparr> fn = \<lparr> in_count = 0, out_count = 0, f_size = 2, f_consts = [Num 2],
        f_locals = [], f_code = [] \<rparr>, regs = [Null, Val (Bool True)], stack = [], pc = 0,
        regOffset = 0 \<rparr> (- 2) = Inl (InvalidConstantIndex (- 2))"
proof -
  let ?m = "\<lparr> fn = \<lparr> in_count = 0, out_count = 0, f_size = 2, f_consts = [Num 2],
        f_locals = [], f_code = [] \<rparr>, regs = [Null, Val (Bool True)], stack = [], pc = 0,
        regOffset = 0 \<rparr>"
  from getVal_dispatch [of 1 ?m] have 1: "getVal ?m 1 = Inr (Val (Bool True))"
    by (simp add: js_get_def)
  from getVal_dispatch [of 2 ?m] have 2: "getVal ?m 2 = Inl (InvalidRegisterIndex 2)" by simp
  from getVal_dispatch [of "- 1" ?m] have 3: "getVal ?m (- 1) = Inr (Val (Num 2))" by simp
  from getVal_dispatch [of "- 2" ?m] have 4: "getVal ?m (- 2) = Inl (InvalidConstantIndex (- 2))"
    by simp
  from 1 2 3 4 show ?thesis by blast
qed

text \<open>
  C9, as the claim states it, fails: the constructor fills the register file with the
  host's \<open>null\<close>, which is not the \<open>Nil\<close> value.
\<close>

theorem VM_new_slot_is_not_Nil:
  "\<exists>m. VM_new \<lparr> in_count = 0, out_count = 0, f_size = 1, f_consts = [], f_locals = [],
        f_code = [] \<rparr> = Inr m \<and> regs m = [Null] \<and> regs m ! 0 \<noteq> Val Nil_val"
  by (simp add: VM_new_def)

text \<open>
  C9, amended. For a frame whose size is an array length, the constructor succeeds, the
  register file has exactly that many slots, each of them \<open>null\<close>, and no sequence of steps
  changes the number of slots.
\<close>

theorem VM_new_registers:
  assumes "0 \<le> f_size f" and "f_size f \<le> 4294967295"
  shows "\<exists>m. VM_new f = Inr m \<and> int (length (regs m)) = f_size f \<and>
      (\<forall>i < length (regs m). regs m ! i = Null) \<and>
      (\<forall>k bs m'. steps k m = Inr (bs, m') \<longrightarrow> length (regs m') = length (regs m))"
proof -
  let ?m = "\<lparr> fn = f, regs = replicate (nat (f_size f)) Null, stack = [], pc = 0, regOffset = 0 \<rparr>"
  from assms have new: "VM_new f = Inr ?m" by (simp add: VM_new_def)
  from assms have len: "int (length (regs ?m)) = f_size (fn ?m)" by simp
  have "length (regs m') = length (regs ?m)" if "steps k ?m = Inr (bs, m')" for k bs m'
    using steps_regs_length [OF that len] by simp
  with new len show ?thesis by auto
qed

theorem VM_new_registers_witness:
  "\<exists>m. VM_new \<lparr> in_count = 0, out_count = 0, f_size = 2, f_consts = [], f_locals = [],
        f_code = [] \<rparr> = Inr m \<and> regs m = [Null, Null]"
proof -
  let ?f = "\<lparr> in_count = 0, out_count = 0, f_size = 2, f_consts = [], f_locals = [],
        f_code = [] \<rparr>"
  have "0 \<le> f_size ?f" and "f_size ?f \<le> 4294967295" by simp_all
  from VM_new_registers [OF this] obtain m where m: "VM_new ?f = Inr m"
    and len: "int (length (regs m)) = f_size ?f"
    and nul: "\<forall>i < length (regs m). regs m ! i = Null" by blast
  from len have l2: "length (regs m) = 2" by simp
  with nul have "regs m ! 0 = Null" and "regs m ! 1 = Null" by simp_all
  with l2 have "regs m = [Null, Null]"
    by (cases "regs m"; cases "tl (regs m)") auto
  with m show ?thesis by blast
qed

text \<open>
  C10. A \<open>step\<close> on an \<open>ADD\<close> that fails leaves the machine exactly as it was, registers
  and program counter included; it fails when an operand reference is out of bounds and
  when a resolved operand is not a number.
\<close>

theorem iADD_failure_keeps_state:
  assumes i: "getInstr (fn m) (pc m) = Some (ADD a b c)"
  shows "(\<forall>e m'. step m = Inl (e, m') \<longrightarrow> m' = m \<and> regs m' = regs m \<and> pc m' = pc m) \<and>
     (\<forall>e. getVal m b = Inl e \<longrightarrow> step m = Inl (e, m)) \<and>
     (\<forall>vb e. getVal m b = Inr vb \<and> getVal m c = Inl e \<longrightarrow> step m = Inl (e, m)) \<and>
     (\<forall>vb vc. getVal m b = Inr vb \<and> getVal m c = Inr vc \<and>
          ((\<forall>x. vb \<noteq> Val (Num x)) \<or> (\<forall>y. vc \<noteq> Val (Num y))) \<longrightarrow>
          (\<exists>e. step m = Inl (e, m)))"
proof -
  have s: "step m = (case do_instr (ADD a b c) m of Inl x \<Rightarrow> Inl x | Inr m' \<Rightarrow> Inr (True, m'))"
    using i by (simp add: step_def)
  have 1: "m' = m \<and> regs m' = regs m \<and> pc m' = pc m" if "step m = Inl (e, m')" for e m'
  proof -
    from that s have "do_instr (ADD a b c) m = Inl (e, m')" by (auto split: sum.splits)
    from do_instr_Inl [OF this] show ?thesis by simp
  qed
  have 2: "step m = Inl (e, m)" if "getVal m b = Inl e" for e
    using that s by simp
  have 3: "step m = Inl (e, m)" if "getVal m b = Inr vb" "getVal m c = Inl e" for vb e
    using that s by simp
  have 4: "\<exists>e. step m = Inl (e, m)"
    if "getVal m b = Inr vb" "getVal m c = Inr vc"
      "(\<forall>x. vb \<noteq> Val (Num x)) \<or> (\<forall>y. vc \<noteq> Val (Num y))" for vb vc
    using that s by (auto simp: checkNum_Inr split: sum.splits)
  from 1 2 3 4 show ?thesis by blast
qed

theorem iADD_failure_keeps_state_witness:
  "step \<lparr> fn = \<lparr> in_count = 0, out_count = 0, f_size = 2, f_consts = [Num 2],
        f_locals = [], f_code = [ADD 1 0 (- 1)] \<rparr>, regs = [Val Nil_val, Null], stack = [],
        pc = 0, regOffset = 0 \<rparr> =
     Inl (ExpectedNumber Nil_val, \<lparr> fn = \<lparr> in_count = 0, out_count = 0, f_size = 2,
        f_consts = [Num 2], f_locals = [], f_code = [ADD 1 0 (- 1)] \<rparr>,
        regs = [Val Nil_val, Null], stack = [], pc = 0, regOffset = 0 \<rparr>) \<and>
   step \<lparr> fn = \<lparr> in_count = 0, out_count = 0, f_size = 2, f_consts = [Num 2],
        f_locals = [], f_code = [ADD 1 5 (- 1)] \<rparr>, regs = [Val Nil_val, Null], stack = [],
        pc = 0, regOffset = 0 \<rparr> =
     Inl (InvalidRegisterIndex 5, \<lparr> fn = \<lparr> in_count = 0, out_count = 0, f_size = 2,
        f_consts = [Num 2], f_locals = [], f_code = [ADD 1 5 (- 1)] \<rparr>,
        regs = [Val Nil_val, Null], stack = [], pc = 0, regOffset = 0 \<rparr>)"
proof -
  let ?m = "\<lparr> fn = \<lparr> in_count = 0, out_count = 0, f_size = 2, f_consts = [Num 2],
        f_locals = [], f_code = [ADD 1 0 (- 1)] \<rparr>, regs = [Val Nil_val, Null], stack = [],
        pc = 0, regOffset = 0 \<rparr>"
  let ?n = "\<lparr> fn = \<lparr> in_count = 0, out_count = 0, f_size = 2, f_consts = [Num 2],
        f_locals = [], f_code = [ADD 1 5 (- 1)] \<rparr>, regs = [Val Nil_val, Null], stack = [],
        pc = 0, regOffset = 0 \<rparr>"
  have i: "getInstr (fn ?m) (pc ?m) = Some (ADD 1 0 (- 1))" by (simp add: getInstr_def)
  have j: "getInstr (fn ?n) (pc ?n) = Some (ADD 1 5 (- 1))" by (simp add: getInstr_def)
  have s: "step ?m = Inl (ExpectedNumber Nil_val, ?m)"
    by (simp add: step_def getInstr_def getVal_def getLocal_def getConst_def testRegIndex_def
        testConstIndex_def js_get_def)
  have b: "getVal ?n 5 = Inl (InvalidRegisterIndex 5)"
    by (simp add: getVal_def getLocal_def testRegIndex_def)
  from iADD_failure_keeps_state [OF i] s have 1: "step ?m = Inl (ExpectedNumber Nil_val, ?m)"
    by blast
  from iADD_failure_keeps_state [OF j] b have 2: "step ?n = Inl (InvalidRegisterIndex 5, ?n)"
    by blast
  from 1 2 show ?thesis by simp
qed

section \<open>Properties of the code generator\<close>

subsection \<open>The node closures without the higher-order helpers\<close>

lemma gen_do_add_eq:
  "gen_do (add l r) g =
     (case gen_do l g of
        Inl e \<Rightarrow> Inl e
      | Inr g1 \<Rightarrow>
          (case gen_do r (enter_rhs (snd (pop g1))) of
             Inl e \<Rightarrow> Inl e
           | Inr g4 \<Rightarrow>
               (case emit_add (fst (pop g1)) (g4\<lparr>g_lhs := g_lhs (snd (pop g1))\<rparr>) of
                  Inl e \<Rightarrow> Inl e
                | Inr g5 \<Rightarrow> Inr (g5\<lparr>tempCount := tempCount g5 - 1\<rparr>))))"
  by (simp add: withTemp_def withLHS_def Let_def case_prod_beta enter_rhs_def split: sum.splits)

lemma gen_do_leti_eq:
  "gen_do (leti name v) g =
     (case scan (\<lambda>n. n = name) (g_locals g) 0 of
        Some j \<Rightarrow> Inl (AlreadyDefined name)
      | None \<Rightarrow>
          (case gen_do v (g\<lparr>g_locals := g_locals g @ [name], g_lhs := Some (Local (length (g_locals g)))\<rparr>) of
             Inl e \<Rightarrow> Inl e
           | Inr g2 \<Rightarrow>
               (case store_into (length (g_locals g)) g2 of
                  Inl e \<Rightarrow> Inl e
                | Inr g3 \<Rightarrow> Inr (g3\<lparr>g_lhs := g_lhs g\<rparr>))))"
  by (simp add: withLHS_def Let_def pushLocal_def split: sum.splits option.splits)

lemma gen_do_seti_eq:
  "gen_do (seti name v) g =
     (case scan (\<lambda>n. n = name) (g_locals g) 0 of
        None \<Rightarrow> Inl (NotDefined name)
      | Some i \<Rightarrow>
          (case gen_do v (g\<lparr>g_lhs := Some (Local i)\<rparr>) of
             Inl e \<Rightarrow> Inl e
           | Inr g2 \<Rightarrow>
               (case store_into i g2 of
                  Inl e \<Rightarrow> Inl e
                | Inr g3 \<Rightarrow> Inr (g3\<lparr>g_lhs := g_lhs g\<rparr>))))"
  by (simp add: withLHS_def Let_def split: sum.splits option.splits)

subsection \<open>The primitives of the generator\<close>


lemma scan_Some:
  "scan p xs i = Some j \<Longrightarrow>
     i \<le> j \<and> j - i < length xs \<and> p (xs ! (j - i)) \<and> (\<forall>k < j - i. \<not> p (xs ! k))"
proof (induction xs arbitrary: i)
  case Nil
  then show ?case by simp
next
  case (Cons x xs)
  show ?case
  proof (cases "p x")
    case True
    with Cons.prems show ?thesis by simp
  next
    case False
    with Cons.prems have s: "scan p xs (Suc i) = Some j" by simp
    from Cons.IH [OF s] have le: "Suc i \<le> j" and lt: "j - Suc i < length xs"
      and px: "p (xs ! (j - Suc i))" and no: "\<forall>k < j - Suc i. \<not> p (xs ! k)" by simp_all
    from le have eq: "j - i = Suc (j - Suc i)" by simp
    have "\<not> p ((x # xs) ! k)" if "k < j - i" for k
      using that False no eq by (cases k) simp_all
    with le lt px eq show ?thesis by simp
  qed
qed

lemma updateMaxTemp_fields [simp]:
  "g_consts (updateMaxTemp l g) = g_consts g"
  "g_code (updateMaxTemp l g) = g_code g"
  "g_locals (updateMaxTemp l g) = g_locals g"
  "tempCount (updateMaxTemp l g) = tempCount g"
  "g_stack (updateMaxTemp l g) = g_stack g"
  "g_lhs (updateMaxTemp l g) = g_lhs g"
  by (simp_all add: updateMaxTemp_def split: loc.splits)

lemma maxTemp_updateMaxTemp: "maxTemp (updateMaxTemp l g) = fold max (temps_of l) (maxTemp g)"
  by (cases l) (simp_all add: updateMaxTemp_def max_def)

lemma fold_updateMaxTemp_fields [simp]:
  "g_consts (fold updateMaxTemp ls g) = g_consts g"
  "g_code (fold updateMaxTemp ls g) = g_code g"
  "g_locals (fold updateMaxTemp ls g) = g_locals g"
  "tempCount (fold updateMaxTemp ls g) = tempCount g"
  "g_stack (fold updateMaxTemp ls g) = g_stack g"
  "g_lhs (fold updateMaxTemp ls g) = g_lhs g"
  by (induction ls arbitrary: g) simp_all

lemma maxTemp_fold_updateMaxTemp:
  "maxTemp (fold updateMaxTemp ls g) = fold max (concat (map temps_of ls)) (maxTemp g)"
  by (induction ls arbitrary: g) (simp_all add: maxTemp_updateMaxTemp)

lemma fold_max_ge: "(m::int) \<le> fold max ts m"
proof (induction ts arbitrary: m)
  case Nil
  show ?case by simp
next
  case (Cons t ts)
  have "m \<le> max t m" by simp
  also have "\<dots> \<le> fold max ts (max t m)" by (rule Cons.IH)
  finally show ?case by simp
qed

lemma emit_Inr:
  "emit ins g = Inr g' \<Longrightarrow>
     \<exists>i. present ins = Some i \<and> g_code g' = g_code g @ [i] \<and> g_consts g' = g_consts g \<and>
       g_locals g' = g_locals g \<and> tempCount g' = tempCount g \<and> g_stack g' = g_stack g \<and>
       g_lhs g' = g_lhs g \<and> maxTemp g' = fold max (instr_temps i) (maxTemp g)"
  by (auto simp: emit_def Let_def instr_temps_def maxTemp_fold_updateMaxTemp split: option.splits)

lemma present_MOVE: "present (MOVE a b) = Some i \<longleftrightarrow> (\<exists>x y. a = Some x \<and> b = Some y \<and> i = MOVE x y)"
  by (cases a; cases b) auto

lemma present_LOADK: "present (LOADK a b) = Some i \<longleftrightarrow> (\<exists>x y. a = Some x \<and> b = Some y \<and> i = LOADK x y)"
  by (cases a; cases b) auto

lemma present_ADD:
  "present (ADD a b c) = Some i \<longleftrightarrow> (\<exists>x y z. a = Some x \<and> b = Some y \<and> c = Some z \<and> i = ADD x y z)"
  by (cases a; cases b; cases c) auto

lemma pop_Cons: "g_stack g = x # xs \<Longrightarrow> pop g = (x, g\<lparr>g_stack := xs\<rparr>)"
  by (simp add: pop_def)

lemma pop_Nil: "g_stack g = [] \<Longrightarrow> pop g = (None, g)"
  by (simp add: pop_def)

lemma store_into_Inr:
  assumes "store_into i g = Inr g'"
  shows "\<exists>v S. g_stack g = Some v # S \<and> g_stack g' = Some (Local i) # S \<and>
      g_consts g' = g_consts g \<and> g_locals g' = g_locals g \<and> tempCount g' = tempCount g \<and>
      g_lhs g' = g_lhs g \<and>
      ((v = Local i \<and> g_code g' = g_code g \<and> maxTemp g' = maxTemp g) \<or>
       ((\<exists>k. v = Const k) \<and> g_code g' = g_code g @ [LOADK (Local i) v] \<and> maxTemp g' = maxTemp g) \<or>
       ((\<forall>k. v \<noteq> Const k) \<and> v \<noteq> Local i \<and> g_code g' = g_code g @ [MOVE (Local i) v] \<and>
          maxTemp g' = fold max (temps_of v) (maxTemp g)))"
proof (cases "g_stack g")
  case Nil
  with assms show ?thesis by (simp add: store_into_def pop_Nil)
next
  case (Cons x S)
  show ?thesis
  proof (cases x)
    case None
    with Cons assms show ?thesis by (simp add: store_into_def pop_Cons)
  next
    case (Some v)
    with Cons assms show ?thesis
      by (cases v)
        (auto simp: store_into_def pop_Cons push_def instr_temps_def dest!: emit_Inr
          split: sum.splits if_splits)
  qed
qed


lemma emit_add_Inr:
  assumes "emit_add l g = Inr g'"
  shows "\<exists>d a r S. g_lhs g = Some d \<and> l = Some a \<and> g_stack g = Some r # S \<and>
      g_stack g' = Some d # S \<and> g_code g' = g_code g @ [ADD d a r] \<and>
      maxTemp g' = fold max (instr_temps (ADD d a r)) (maxTemp g) \<and>
      g_consts g' = g_consts g \<and> g_locals g' = g_locals g \<and> tempCount g' = tempCount g \<and>
      g_lhs g' = g_lhs g"
proof (cases "g_stack g")
  case Nil
  with assms show ?thesis
    by (auto simp: emit_add_def pop_Nil present_ADD dest!: emit_Inr split: sum.splits)
next
  case (Cons x S)
  with assms show ?thesis
    by (auto simp: emit_add_def pop_Cons push_def present_ADD dest!: emit_Inr split: sum.splits)
qed


subsection \<open>What a successful walk leaves\<close>

lemma pop_fields [simp]:
  "g_consts (snd (pop g)) = g_consts g"
  "g_code (snd (pop g)) = g_code g"
  "g_locals (snd (pop g)) = g_locals g"
  "tempCount (snd (pop g)) = tempCount g"
  "maxTemp (snd (pop g)) = maxTemp g"
  "g_lhs (snd (pop g)) = g_lhs g"
  by (simp_all add: pop_def split: list.splits)

lemma post_pop:
  "post ns g g1 \<Longrightarrow> \<exists>l. fst (pop g1) = Some l \<and> g_stack (snd (pop g1)) = g_stack g"
  by (auto simp: post_def pop_def)

lemma gen_do_con_post: "gen_do (con v) g = Inr g' \<Longrightarrow> post [] g g'"
  by (auto simp: post_def push_def pushConst_def split: option.splits)

lemma gen_do_vari_post: "gen_do (vari name) g = Inr g' \<Longrightarrow> post [] g g'"
  by (auto simp: post_def push_def split: option.splits)

lemma add_post:
  assumes l: "post ns1 g g1"
    and r: "post ns2 (enter_rhs (snd (pop g1))) g4"
    and e: "emit_add (fst (pop g1)) (g4\<lparr>g_lhs := g_lhs (snd (pop g1))\<rparr>) = Inr g5"
  shows "post (ns1 @ ns2) g (g5\<lparr>tempCount := tempCount g5 - 1\<rparr>)"
proof -
  from post_pop [OF l] obtain lv where st: "g_stack (snd (pop g1)) = g_stack g" by blast
  from emit_add_Inr [OF e] obtain d a rr S where
    "g_stack (g4\<lparr>g_lhs := g_lhs (snd (pop g1))\<rparr>) = Some rr # S"
    "g_stack g5 = Some d # S"
    "g_code g5 = g_code (g4\<lparr>g_lhs := g_lhs (snd (pop g1))\<rparr>) @ [ADD d a rr]"
    "maxTemp g5 = fold max (instr_temps (ADD d a rr)) (maxTemp (g4\<lparr>g_lhs := g_lhs (snd (pop g1))\<rparr>))"
    "g_consts g5 = g_consts (g4\<lparr>g_lhs := g_lhs (snd (pop g1))\<rparr>)"
    "g_locals g5 = g_locals (g4\<lparr>g_lhs := g_lhs (snd (pop g1))\<rparr>)"
    "tempCount g5 = tempCount (g4\<lparr>g_lhs := g_lhs (snd (pop g1))\<rparr>)"
    "g_lhs g5 = g_lhs (g4\<lparr>g_lhs := g_lhs (snd (pop g1))\<rparr>)"
    by blast
  moreover have "maxTemp g4 \<le> fold max (instr_temps (ADD d a rr)) (maxTemp g4)"
    by (rule fold_max_ge)
  ultimately show ?thesis
    using l r st by (auto simp: post_def enter_rhs_def)
qed

lemma store_post:
  assumes v: "post ns g0 g2"
    and s: "store_into i g2 = Inr g3"
  shows "g_locals g3 = g_locals g0 @ ns \<and> tempCount g3 = tempCount g0 \<and>
     (\<exists>cs. g_consts g3 = g_consts g0 @ cs) \<and> (\<exists>is. g_code g3 = g_code g0 @ is) \<and>
     maxTemp g0 \<le> maxTemp g3 \<and> g_stack g3 = Some (Local i) # g_stack g0"
proof -
  from store_into_Inr [OF s] obtain vv S where
    st: "g_stack g2 = Some vv # S" "g_stack g3 = Some (Local i) # S"
    and same: "g_consts g3 = g_consts g2" "g_locals g3 = g_locals g2" "tempCount g3 = tempCount g2"
    and code: "g_code g3 = g_code g2 \<or> (\<exists>ins. g_code g3 = g_code g2 @ [ins])"
    and mt: "maxTemp g3 = maxTemp g2 \<or> maxTemp g3 = fold max (temps_of vv) (maxTemp g2)"
    by blast
  have "maxTemp g2 \<le> fold max (temps_of vv) (maxTemp g2)" by (rule fold_max_ge)
  with mt have "maxTemp g2 \<le> maxTemp g3" by auto
  with v st same code show ?thesis by (auto simp: post_def)
qed

lemma gen_body_post:
  assumes IH: "\<And>x g g'. x \<in> set body \<Longrightarrow> gen_do x g = Inr g' \<Longrightarrow> post (let_names x) g g'"
    and run: "gen_body body r g = Inr g'"
  shows "g_locals g' = g_locals g @ concat (map let_names body) \<and> g_lhs g' = g_lhs g \<and>
     tempCount g' = tempCount g \<and> (\<exists>cs. g_consts g' = g_consts g @ cs) \<and>
     (\<exists>is. g_code g' = g_code g @ is) \<and> maxTemp g \<le> maxTemp g' \<and>
     (\<exists>x. g_stack g' = x # g_stack g \<and> (body \<noteq> [] \<or> r \<noteq> None \<longrightarrow> x \<noteq> None))"
  using IH run
proof (induction body arbitrary: r g)
  case Nil
  then show ?case by (auto simp: push_def)
next
  case (Cons e es)
  from Cons.prems(2) obtain g1 where e: "gen_do e g = Inr g1"
    and rest: "gen_body es (fst (pop g1)) (snd (pop g1)) = Inr g'"
    by (auto simp: case_prod_beta split: sum.splits)
  from Cons.prems(1) [OF _ e] have p: "post (let_names e) g g1" by simp
  from post_pop [OF p] obtain l where l: "fst (pop g1) = Some l"
    and st: "g_stack (snd (pop g1)) = g_stack g" by blast
  have "\<And>x g g'. x \<in> set es \<Longrightarrow> gen_do x g = Inr g' \<Longrightarrow> post (let_names x) g g'"
    using Cons.prems(1) by simp
  from Cons.IH [OF this rest] p l st show ?case
    by (auto simp: post_def)
qed

lemma gen_do_post: "gen_do n g = Inr g' \<Longrightarrow> post (let_names n) g g'"
proof (induction n arbitrary: g g')
  case (con v)
  then show ?case by (simp add: gen_do_con_post)
next
  case (add l r)
  from add.prems obtain g1 g4 g5 where l: "gen_do l g = Inr g1"
    and r: "gen_do r (enter_rhs (snd (pop g1))) = Inr g4"
    and e: "emit_add (fst (pop g1)) (g4\<lparr>g_lhs := g_lhs (snd (pop g1))\<rparr>) = Inr g5"
    and g': "g' = g5\<lparr>tempCount := tempCount g5 - 1\<rparr>"
    unfolding gen_do_add_eq by (auto split: sum.splits)
  from add_post [OF add.IH(1) [OF l] add.IH(2) [OF r] e] g' show ?case by simp
next
  case (leti name v)
  from leti.prems obtain g2 g3 where
    v: "gen_do v (g\<lparr>g_locals := g_locals g @ [name], g_lhs := Some (Local (length (g_locals g)))\<rparr>) = Inr g2"
    and s: "store_into (length (g_locals g)) g2 = Inr g3"
    and g': "g' = g3\<lparr>g_lhs := g_lhs g\<rparr>"
    unfolding gen_do_leti_eq by (auto split: sum.splits option.splits)
  from store_post [OF leti.IH [OF v] s] g' show ?case by (auto simp: post_def)
next
  case (vari name)
  then show ?case by (simp add: gen_do_vari_post)
next
  case (seti name v)
  from seti.prems obtain i g2 g3 where
    v: "gen_do v (g\<lparr>g_lhs := Some (Local i)\<rparr>) = Inr g2"
    and s: "store_into i g2 = Inr g3"
    and g': "g' = g3\<lparr>g_lhs := g_lhs g\<rparr>"
    unfolding gen_do_seti_eq by (auto split: sum.splits option.splits)
  from store_post [OF seti.IH [OF v] s] g' show ?case by (auto simp: post_def)
next
  case (block body)
  from block.prems have ne: "body \<noteq> []" and run: "gen_body body None g = Inr g'"
    by (auto split: if_splits)
  from gen_body_post [OF block.IH run] ne show ?case
    by (auto simp: post_def)
qed

subsection \<open>Properties kept by every walk\<close>


subsection \<open>Valid locations and instructions\<close>

lemma post_ext: "post ns g g' \<Longrightarrow> extends g g'"
  by (auto simp: post_def extends_def)

lemma loc_ok_ext: "extends g g' \<Longrightarrow> loc_ok g l \<Longrightarrow> loc_ok g' l"
  by (cases l) (auto simp: extends_def)

lemma arg_ok_ext: "extends g g' \<Longrightarrow> arg_ok g l \<Longrightarrow> arg_ok g' l"
  by (cases l) (auto simp: arg_ok_def extends_def)

lemma instr_ok_ext: "extends g g' \<Longrightarrow> instr_ok g i \<Longrightarrow> instr_ok g' i"
  by (cases i) (auto dest: arg_ok_ext)

lemma code_ok_ext: "extends g g' \<Longrightarrow> list_all (instr_ok g) c \<Longrightarrow> list_all (instr_ok g') c"
  by (auto simp: list_all_iff dest: instr_ok_ext)

lemma loc_ok_upd [simp]:
  "loc_ok (g\<lparr>g_stack := s\<rparr>) l = loc_ok g l"
  "loc_ok (g\<lparr>g_lhs := x\<rparr>) l = loc_ok g l"
  "loc_ok (g\<lparr>tempCount := t\<rparr>) l = loc_ok g l"
  "loc_ok (g\<lparr>g_code := c\<rparr>) l = loc_ok g l"
  "loc_ok (g\<lparr>maxTemp := k\<rparr>) l = loc_ok g l"
  by (cases l; simp)+

lemma arg_ok_upd [simp]:
  "arg_ok (g\<lparr>g_stack := s\<rparr>) l = arg_ok g l"
  "arg_ok (g\<lparr>g_lhs := x\<rparr>) l = arg_ok g l"
  "arg_ok (g\<lparr>tempCount := t\<rparr>) l = arg_ok g l"
  "arg_ok (g\<lparr>g_code := c\<rparr>) l = arg_ok g l"
  by (simp_all add: arg_ok_def)

lemma instr_ok_upd [simp]:
  "instr_ok (g\<lparr>g_stack := s\<rparr>) = instr_ok g"
  "instr_ok (g\<lparr>g_lhs := x\<rparr>) = instr_ok g"
  "instr_ok (g\<lparr>tempCount := t\<rparr>) = instr_ok g"
  "instr_ok (g\<lparr>g_code := c\<rparr>) = instr_ok g"
proof -
  have "instr_ok (g\<lparr>g_stack := s\<rparr>) i = instr_ok g i" for i by (cases i) simp_all
  then show "instr_ok (g\<lparr>g_stack := s\<rparr>) = instr_ok g" by (rule ext)
  have "instr_ok (g\<lparr>g_lhs := x\<rparr>) i = instr_ok g i" for i by (cases i) simp_all
  then show "instr_ok (g\<lparr>g_lhs := x\<rparr>) = instr_ok g" by (rule ext)
  have "instr_ok (g\<lparr>tempCount := t\<rparr>) i = instr_ok g i" for i by (cases i) simp_all
  then show "instr_ok (g\<lparr>tempCount := t\<rparr>) = instr_ok g" by (rule ext)
  have "instr_ok (g\<lparr>g_code := c\<rparr>) i = instr_ok g i" for i by (cases i) simp_all
  then show "instr_ok (g\<lparr>g_code := c\<rparr>) = instr_ok g" by (rule ext)
qed

lemma gen_inv_pop:
  "gen_inv g \<Longrightarrow> gen_inv (snd (pop g)) \<and> (\<forall>l. fst (pop g) = Some l \<longrightarrow> loc_ok g l)"
  by (cases "g_stack g") (auto simp: gen_inv_def pop_def)

lemma fold_max_temps: "list_all (\<lambda>t. t \<le> fold max ts m) ts" for m :: int
proof (induction ts arbitrary: m)
  case Nil
  show ?case by simp
next
  case (Cons t ts)
  have "t \<le> max t m" by simp
  also have "\<dots> \<le> fold max ts (max t m)" by (rule fold_max_ge)
  finally show ?case using Cons.IH [of "max t m"] by simp
qed

lemma arg_ok_emitted:
  "loc_ok g l \<Longrightarrow> l \<in> set (args_of i) \<Longrightarrow> g_locals g' = g_locals g \<Longrightarrow>
     g_consts g' = g_consts g \<Longrightarrow> maxTemp g' = fold max (instr_temps i) (maxTemp g) \<Longrightarrow>
     arg_ok g' l"
proof -
  assume l: "loc_ok g l" and m: "l \<in> set (args_of i)" and a: "g_locals g' = g_locals g"
    and b: "g_consts g' = g_consts g" and c: "maxTemp g' = fold max (instr_temps i) (maxTemp g)"
  from l a b have "loc_ok g' l" by (cases l) auto
  moreover have "list_all (\<lambda>t. t \<le> maxTemp g') (temps_of l)"
  proof -
    from m have "set (temps_of l) \<subseteq> set (instr_temps i)"
      by (auto simp: instr_temps_def)
    with fold_max_temps [of "instr_temps i" "maxTemp g"] c show ?thesis
      by (auto simp: list_all_iff)
  qed
  ultimately show ?thesis by (simp add: arg_ok_def)
qed

lemma emit_inv:
  assumes inv: "gen_inv g"
    and e: "emit ins g = Inr g'"
    and ok: "\<And>i. present ins = Some i \<Longrightarrow> (\<forall>l \<in> set (args_of i). loc_ok g l) \<and>
        (case i of MOVE a b \<Rightarrow> is_reg a | LOADK a k \<Rightarrow> is_reg a \<and> \<not> is_reg k | ADD a b c \<Rightarrow> is_reg a)"
  shows "gen_inv g'"
proof -
  from emit_Inr [OF e] obtain i where p: "present ins = Some i"
    and code: "g_code g' = g_code g @ [i]" and same: "g_consts g' = g_consts g"
    "g_locals g' = g_locals g" "tempCount g' = tempCount g" "g_stack g' = g_stack g"
    "g_lhs g' = g_lhs g" and mt: "maxTemp g' = fold max (instr_temps i) (maxTemp g)"
    by blast
  have ge: "maxTemp g \<le> maxTemp g'" unfolding mt by (rule fold_max_ge)
  with same have x: "extends g g'" by (simp add: extends_def)
  from ok [OF p] have locs: "\<forall>l \<in> set (args_of i). loc_ok g l"
    and shape: "case i of MOVE a b \<Rightarrow> is_reg a | LOADK a k \<Rightarrow> is_reg a \<and> \<not> is_reg k | ADD a b c \<Rightarrow> is_reg a"
    by simp_all
  have args: "arg_ok g' l" if "l \<in> set (args_of i)" for l
    using locs that same mt by (auto intro: arg_ok_emitted)
  have "instr_ok g' i"
    using shape args by (cases i) auto
  from inv have "list_all (instr_ok g) (g_code g)" by (simp add: gen_inv_def)
  from code_ok_ext [OF x this] \<open>instr_ok g' i\<close> code
  have c: "list_all (instr_ok g') (g_code g')" by simp
  have st: "loc_ok g' l" if "Some l \<in> set (g_stack g')" for l
  proof -
    from that same inv have "loc_ok g l" by (simp add: gen_inv_def)
    with x show ?thesis by (rule loc_ok_ext)
  qed
  have lh: "is_reg l \<and> loc_ok g' l" if "g_lhs g' = Some l" for l
  proof -
    from that same inv have "is_reg l \<and> loc_ok g l" by (simp add: gen_inv_def)
    with x show ?thesis by (auto intro: loc_ok_ext)
  qed
  from inv same ge have "0 \<le> tempCount g'" and "- 1 \<le> maxTemp g'"
    by (simp_all add: gen_inv_def)
  with c st lh show ?thesis by (simp add: gen_inv_def)
qed

lemma gen_inv_stack: "gen_inv g \<Longrightarrow> (\<forall>l. x = Some l \<longrightarrow> loc_ok g l) \<Longrightarrow> gen_inv (push x g)"
  by (auto simp: gen_inv_def push_def)

lemma gen_inv_lhs:
  "gen_inv g \<Longrightarrow> (\<forall>l. x = Some l \<longrightarrow> is_reg l \<and> loc_ok g l) \<Longrightarrow> gen_inv (g\<lparr>g_lhs := x\<rparr>)"
  by (auto simp: gen_inv_def)

lemma gen_inv_tempCount:
  "gen_inv g \<Longrightarrow> 0 \<le> t \<Longrightarrow> gen_inv (g\<lparr>tempCount := t\<rparr>)"
  by (auto simp: gen_inv_def)

lemma gen_inv_lhs_ok: "gen_inv g \<Longrightarrow> g_lhs g = Some l \<Longrightarrow> is_reg l \<and> loc_ok g l"
  by (simp add: gen_inv_def)

lemma store_into_inv:
  assumes inv: "gen_inv g" and i: "i < length (g_locals g)" and s: "store_into i g = Inr g'"
  shows "gen_inv g'"
proof -
  from gen_inv_pop [OF inv] have p: "gen_inv (snd (pop g))"
    and v: "\<And>l. fst (pop g) = Some l \<Longrightarrow> loc_ok g l" by simp_all
  have lok: "loc_ok (snd (pop g)) l" if "loc_ok g l" for l
    using that by (cases l) simp_all
  from i have li: "loc_ok (snd (pop g)) (Local i)" by simp
  obtain x where x: "fst (pop g) = Some x"
    using s by (cases "fst (pop g)") (auto simp: store_into_def case_prod_beta)
  from v [OF x] have xok: "loc_ok (snd (pop g)) x" by (rule lok)
  have fin: "gen_inv (push (Some (Local i)) h)" if "gen_inv h" "g_locals h = g_locals g" for h
    using that i by (intro gen_inv_stack) simp_all
  show ?thesis
  proof (cases x)
    case (Temp t)
    with s x obtain g2 where e: "emit (MOVE (Some (Local i)) (Some x)) (snd (pop g)) = Inr g2"
      and g': "g' = push (Some (Local i)) g2"
      by (auto simp: store_into_def case_prod_beta split: sum.splits)
    have "gen_inv g2"
      by (rule emit_inv [OF p e]) (use li xok in \<open>auto simp: present_MOVE\<close>)
    moreover from emit_Inr [OF e] have "g_locals g2 = g_locals g" by auto
    ultimately show ?thesis unfolding g' by (rule fin)
  next
    case (Local j)
    show ?thesis
    proof (cases "j = i")
      case True
      with s x Local have "g' = push (Some (Local i)) (snd (pop g))"
        by (auto simp: store_into_def case_prod_beta)
      with p show ?thesis by (simp add: fin)
    next
      case False
      with s x Local obtain g2 where e: "emit (MOVE (Some (Local i)) (Some x)) (snd (pop g)) = Inr g2"
        and g': "g' = push (Some (Local i)) g2"
        by (auto simp: store_into_def case_prod_beta split: sum.splits)
      have "gen_inv g2"
        by (rule emit_inv [OF p e]) (use li xok in \<open>auto simp: present_MOVE\<close>)
      moreover from emit_Inr [OF e] have "g_locals g2 = g_locals g" by auto
      ultimately show ?thesis unfolding g' by (rule fin)
    qed
  next
    case (Const k)
    with s x obtain g2 where e: "emit (LOADK (Some (Local i)) (Some x)) (snd (pop g)) = Inr g2"
      and g': "g' = push (Some (Local i)) g2"
      by (auto simp: store_into_def case_prod_beta split: sum.splits)
    have "gen_inv g2"
      by (rule emit_inv [OF p e]) (use li xok Const in \<open>auto simp: present_LOADK\<close>)
    moreover from emit_Inr [OF e] have "g_locals g2 = g_locals g" by auto
    ultimately show ?thesis unfolding g' by (rule fin)
  qed
qed

lemma emit_add_inv:
  assumes inv: "gen_inv g" and l: "\<And>a. l = Some a \<Longrightarrow> loc_ok g a" and e: "emit_add l g = Inr g'"
  shows "gen_inv g'"
proof -
  from gen_inv_pop [OF inv] have p: "gen_inv (snd (pop g))"
    and v: "\<And>r. fst (pop g) = Some r \<Longrightarrow> loc_ok g r" by simp_all
  have lok: "loc_ok (snd (pop g)) x" if "loc_ok g x" for x
    using that by (cases x) simp_all
  from e obtain g2 where em: "emit (ADD (g_lhs (snd (pop g))) l (fst (pop g))) (snd (pop g)) = Inr g2"
    and g': "g' = push (g_lhs g2) g2"
    by (auto simp: emit_add_def case_prod_beta split: sum.splits)
  have g2: "gen_inv g2"
  proof (rule emit_inv [OF p em])
    fix i
    assume "present (ADD (g_lhs (snd (pop g))) l (fst (pop g))) = Some i"
    then obtain d a r where d: "g_lhs g = Some d" and a: "l = Some a"
      and r: "fst (pop g) = Some r" and i: "i = ADD d a r"
      by (auto simp: present_ADD)
    from gen_inv_lhs_ok [OF inv d] l [OF a] v [OF r] i
    show "(\<forall>l \<in> set (args_of i). loc_ok (snd (pop g)) l) \<and>
        (case i of MOVE a b \<Rightarrow> is_reg a | LOADK a k \<Rightarrow> is_reg a \<and> \<not> is_reg k | ADD a b c \<Rightarrow> is_reg a)"
      by (auto intro: lok)
  qed
  then have "\<forall>x. g_lhs g2 = Some x \<longrightarrow> loc_ok g2 x" by (simp add: gen_inv_def)
  with g2 show ?thesis unfolding g' by (intro gen_inv_stack)
qed

lemma gen_body_inv:
  assumes IH: "\<And>x g g'. x \<in> set body \<Longrightarrow> gen_do x g = Inr g' \<Longrightarrow> gen_inv g \<Longrightarrow> gen_inv g'"
    and run: "gen_body body r g = Inr g'"
    and inv: "gen_inv g"
    and r: "\<And>l. r = Some l \<Longrightarrow> loc_ok g l"
  shows "gen_inv g'"
  using IH run inv r
proof (induction body arbitrary: r g)
  case Nil
  then show ?case by (auto intro: gen_inv_stack)
next
  case (Cons e es)
  from Cons.prems(2) obtain g1 where e: "gen_do e g = Inr g1"
    and rest: "gen_body es (fst (pop g1)) (snd (pop g1)) = Inr g'"
    by (auto simp: case_prod_beta split: sum.splits)
  from Cons.prems(1) [OF _ e Cons.prems(3)] have "gen_inv g1" by simp
  from gen_inv_pop [OF this] have p: "gen_inv (snd (pop g1))"
    and l: "\<And>l. fst (pop g1) = Some l \<Longrightarrow> loc_ok g1 l" by simp_all
  have l': "loc_ok (snd (pop g1)) l" if "fst (pop g1) = Some l" for l
    using l [OF that] by (cases l) simp_all
  have "\<And>x g g'. x \<in> set es \<Longrightarrow> gen_do x g = Inr g' \<Longrightarrow> gen_inv g \<Longrightarrow> gen_inv g'"
    using Cons.prems(1) by (meson list.set_intros(2))
  from Cons.IH [OF this rest p l'] show ?case .
qed

lemma gen_do_inv: "gen_do n g = Inr g' \<Longrightarrow> gen_inv g \<Longrightarrow> gen_inv g'"
proof (induction n arbitrary: g g')
  case (con v)
  show ?case
  proof (cases "scan (\<lambda>c. veq c v) (g_consts g) 0")
    case None
    with con.prems(1)
    have g': "g' = push (Some (Const (- int (length (g_consts g)) - 1)))
        (g\<lparr>g_consts := g_consts g @ [v]\<rparr>)"
      by (simp add: pushConst_def)
    have x: "extends g (g\<lparr>g_consts := g_consts g @ [v]\<rparr>)" by (simp add: extends_def)
    from con.prems(2) have "gen_inv (g\<lparr>g_consts := g_consts g @ [v]\<rparr>)"
      by (auto simp: gen_inv_def intro: loc_ok_ext [OF x] code_ok_ext [OF x])
    then show ?thesis unfolding g' by (rule gen_inv_stack) simp
  next
    case (Some i)
    with con.prems(1) have g': "g' = push (Some (Const (- int i - 1))) g" by simp
    from scan_Some [OF Some] have "i < length (g_consts g)" by simp
    with con.prems(2) show ?thesis unfolding g' by (intro gen_inv_stack) simp_all
  qed
next
  case (add l r)
  from add.prems(1) obtain g1 g4 g5 where l: "gen_do l g = Inr g1"
    and r: "gen_do r (enter_rhs (snd (pop g1))) = Inr g4"
    and e: "emit_add (fst (pop g1)) (g4\<lparr>g_lhs := g_lhs (snd (pop g1))\<rparr>) = Inr g5"
    and g': "g' = g5\<lparr>tempCount := tempCount g5 - 1\<rparr>"
    unfolding gen_do_add_eq by (auto split: sum.splits)
  from add.IH(1) [OF l add.prems(2)] have i1: "gen_inv g1" .
  from gen_inv_pop [OF i1] have p: "gen_inv (snd (pop g1))"
    and lv: "\<And>a. fst (pop g1) = Some a \<Longrightarrow> loc_ok g1 a" by simp_all
  from i1 have t1: "0 \<le> tempCount g1" by (simp add: gen_inv_def)
  have "gen_inv (enter_rhs (snd (pop g1)))"
    unfolding enter_rhs_def using p t1
    by (intro gen_inv_lhs gen_inv_tempCount) simp_all
  from add.IH(2) [OF r this] have i4: "gen_inv g4" .
  from gen_do_post [OF r] have po: "post (let_names r) (enter_rhs (snd (pop g1))) g4" .
  from post_ext [OF po] have x: "extends g1 g4"
    by (simp add: extends_def enter_rhs_def)
  from po have t4: "tempCount g4 = tempCount g1 + 1" by (simp add: post_def enter_rhs_def)
  have "gen_inv (g4\<lparr>g_lhs := g_lhs (snd (pop g1))\<rparr>)"
  proof (rule gen_inv_lhs [OF i4], intro allI impI)
    fix d
    assume "g_lhs (snd (pop g1)) = Some d"
    then have "g_lhs g1 = Some d" by simp
    from gen_inv_lhs_ok [OF i1 this] show "is_reg d \<and> loc_ok g4 d"
      by (auto intro: loc_ok_ext [OF x])
  qed
  moreover have "loc_ok (g4\<lparr>g_lhs := g_lhs (snd (pop g1))\<rparr>) a" if "fst (pop g1) = Some a" for a
    using loc_ok_ext [OF x lv [OF that]] by simp
  ultimately have i5: "gen_inv g5" using e by (rule emit_add_inv)
  from emit_add_Inr [OF e] t4 have "tempCount g5 - 1 = tempCount g1" by auto
  with t1 i5 show ?case unfolding g' by (intro gen_inv_tempCount) simp_all
next
  case (leti name v)
  let ?g0 = "g\<lparr>g_locals := g_locals g @ [name], g_lhs := Some (Local (length (g_locals g)))\<rparr>"
  from leti.prems(1) obtain g2 g3 where
    v: "gen_do v ?g0 = Inr g2"
    and s: "store_into (length (g_locals g)) g2 = Inr g3"
    and g': "g' = g3\<lparr>g_lhs := g_lhs g\<rparr>"
    unfolding gen_do_leti_eq by (auto split: sum.splits option.splits)
  have x0: "extends g (g\<lparr>g_locals := g_locals g @ [name]\<rparr>)" by (simp add: extends_def)
  from leti.prems(2) have "gen_inv (g\<lparr>g_locals := g_locals g @ [name]\<rparr>)"
    by (auto simp: gen_inv_def intro: loc_ok_ext [OF x0] code_ok_ext [OF x0])
  then have "gen_inv ?g0" by (rule gen_inv_lhs) simp
  from leti.IH [OF v this] have i2: "gen_inv g2" .
  from gen_do_post [OF v] have po: "post (let_names v) ?g0 g2" .
  then have "length (g_locals g) < length (g_locals g2)" by (simp add: post_def)
  from store_into_inv [OF i2 this s] have i3: "gen_inv g3" .
  from store_post [OF po s] have "extends g g3" by (auto simp: extends_def)
  with leti.prems(2) have "\<forall>l. g_lhs g = Some l \<longrightarrow> is_reg l \<and> loc_ok g3 l"
    by (auto simp: gen_inv_def intro: loc_ok_ext)
  with i3 show ?case unfolding g' by (rule gen_inv_lhs)
next
  case (vari name)
  from vari.prems(1) obtain i where i: "scan (\<lambda>n. n = name) (g_locals g) 0 = Some i"
    and g': "g' = push (Some (Local i)) g"
    by (auto split: option.splits)
  from scan_Some [OF i] have "i < length (g_locals g)" by simp
  with vari.prems(2) show ?case unfolding g' by (intro gen_inv_stack) simp_all
next
  case (seti name v)
  from seti.prems(1) obtain i g2 g3 where
    i: "scan (\<lambda>n. n = name) (g_locals g) 0 = Some i"
    and v: "gen_do v (g\<lparr>g_lhs := Some (Local i)\<rparr>) = Inr g2"
    and s: "store_into i g2 = Inr g3"
    and g': "g' = g3\<lparr>g_lhs := g_lhs g\<rparr>"
    unfolding gen_do_seti_eq by (auto split: sum.splits option.splits)
  from scan_Some [OF i] have il: "i < length (g_locals g)" by simp
  with seti.prems(2) have "gen_inv (g\<lparr>g_lhs := Some (Local i)\<rparr>)"
    by (intro gen_inv_lhs) simp_all
  from seti.IH [OF v this] have i2: "gen_inv g2" .
  from gen_do_post [OF v] have po: "post (let_names v) (g\<lparr>g_lhs := Some (Local i)\<rparr>) g2" .
  with il have "i < length (g_locals g2)" by (simp add: post_def)
  from store_into_inv [OF i2 this s] have i3: "gen_inv g3" .
  from store_post [OF po s] have "extends g g3" by (auto simp: extends_def)
  with seti.prems(2) have "\<forall>l. g_lhs g = Some l \<longrightarrow> is_reg l \<and> loc_ok g3 l"
    by (auto simp: gen_inv_def intro: loc_ok_ext)
  with i3 show ?case unfolding g' by (rule gen_inv_lhs)
next
  case (block body)
  from block.prems(1) have run: "gen_body body None g = Inr g'" by (auto split: if_splits)
  from gen_body_inv [OF block.IH run block.prems(2)] show ?case by simp
qed

lemma gen_inv_new: "gen_inv CodeGen_new"
  by (simp add: gen_inv_def CodeGen_new_def)

subsection \<open>Locals, pool and temporaries\<close>









subsection \<open>The pool holds every constant of the tree once\<close>







subsection \<open>Trees on which the walk succeeds\<close>




subsection \<open>Trees on which only a duplicate declaration can fail\<close>

lemma dup_or_ok_Inr [simp]: "dup_or_ok ns (Inr g)"
  by (simp add: dup_or_ok_def)




subsection \<open>From generator locations to operands of the frame\<close>

lemma resolve_reg:
  "- 1 \<le> maxTemp g \<Longrightarrow> arg_ok g l \<Longrightarrow> is_reg l \<Longrightarrow> reg_in_range (mkFrame g) (resolve (length (g_locals g)) l)"
  by (cases l) (auto simp: arg_ok_def reg_in_range_def mkFrame_def)

lemma resolve_const:
  "arg_ok g l \<Longrightarrow> \<not> is_reg l \<Longrightarrow> const_in_range (mkFrame g) (resolve (length (g_locals g)) l)"
  by (cases l) (auto simp: arg_ok_def const_in_range_def mkFrame_def)

lemma resolve_operand:
  "- 1 \<le> maxTemp g \<Longrightarrow> arg_ok g l \<Longrightarrow> operand_in_range (mkFrame g) (resolve (length (g_locals g)) l)"
  by (cases "is_reg l") (auto simp: operand_in_range_def dest: resolve_reg resolve_const)

lemma instr_ok_in_range:
  "- 1 \<le> maxTemp g \<Longrightarrow> instr_ok g i \<Longrightarrow> instr_in_range (mkFrame g) (map_instr (resolve (length (g_locals g))) i)"
  by (cases i) (auto intro: resolve_reg resolve_const resolve_operand)

lemma getVal_in_range: "operand_in_range (fn m) x \<Longrightarrow> \<exists>v. getVal m x = Inr v"
  by (auto simp: operand_in_range_def reg_in_range_def const_in_range_def getVal_def
      getLocal_def getConst_def testRegIndex_def testConstIndex_def Let_def)

lemma getConst_in_range: "const_in_range (fn m) x \<Longrightarrow> \<exists>v. getConst m x = Inr v"
  by (auto simp: const_in_range_def getConst_def testConstIndex_def Let_def)

lemma setLocal_in_range: "reg_in_range (fn m) x \<Longrightarrow> \<exists>m'. setLocal m x v = Inr m'"
  by (auto simp: reg_in_range_def setLocal_def testRegIndex_def)

lemma checkNum_no_index_error: "checkNum s = Inl e \<Longrightarrow> \<not> is_index_error e"
  by (cases s rule: checkNum.cases) auto

lemma do_instr_in_range:
  assumes ok: "instr_in_range (fn m) ins" and e: "do_instr ins m = Inl (e, m')"
  shows "\<not> is_index_error e"
proof (cases ins)
  case (MOVE a b)
  with ok obtain v where v: "getVal m b = Inr v"
    using getVal_in_range [of m b] by auto
  from ok MOVE obtain m1 where "setLocal m a v = Inr m1"
    using setLocal_in_range [of m a v] by auto
  with e MOVE v show ?thesis by simp
next
  case (LOADK a k)
  with ok obtain v where v: "getConst m k = Inr v"
    using getConst_in_range [of m k] by auto
  from ok LOADK obtain m1 where "setLocal m a v = Inr m1"
    using setLocal_in_range [of m a v] by auto
  with e LOADK v show ?thesis by simp
next
  case (ADD a b c)
  with ok obtain vb vc where b: "getVal m b = Inr vb" and c: "getVal m c = Inr vc"
    using getVal_in_range [of m b] getVal_in_range [of m c] by auto
  from ok ADD have "setLocal m a v \<noteq> Inl (e, m')" for v
    using setLocal_in_range [of m a v] by auto
  with e ADD b c show ?thesis
    by (auto dest: checkNum_no_index_error split: sum.splits)
qed

subsection \<open>Claims about the code generator\<close>




text \<open>
  C2. The tree \<open>block [leti a (2 + 2), leti b (3 + a)]\<close> compiles, a fresh machine over
  the frame steps twice and then halts, and the registers of \<open>a\<close> and \<open>b\<close> (positions 0
  and 1 of the frame's locals) then hold the numbers 4 and 7.
\<close>

theorem two_lets_run:
  "\<exists>fr m0 m1.
     compile (block [leti ''a'' (add (con (Num 2)) (con (Num 2))),
                     leti ''b'' (add (con (Num 3)) (vari ''a''))]) = Inr fr \<and>
     VM_new fr = Inr m0 \<and>
     steps 3 m0 = Inr ([True, True, False], m1) \<and>
     step_until_halt m0 = Inr m1 \<and>
     scan (\<lambda>n. n = ''a'') (f_locals fr) 0 = Some 0 \<and>
     scan (\<lambda>n. n = ''b'') (f_locals fr) 0 = Some 1 \<and>
     js_get (regs m1) 0 = Val (Num 4) \<and> js_get (regs m1) 1 = Val (Num 7) \<and>
     length (regs m1) = 2"
proof -
  let ?fr = "\<lparr> in_count = 0, out_count = 0, f_size = 2, f_consts = [Num 2, Num 3],
           f_locals = [''a'', ''b''], f_code = [ADD 0 (- 1) (- 1), ADD 1 (- 2) 0] \<rparr>"
  let ?m0 = "\<lparr> fn = ?fr, regs = [Null, Null], stack = [], pc = 0, regOffset = 0 \<rparr>"
  let ?m1 = "\<lparr> fn = ?fr, regs = [Val (Num 4), Val (Num 7)], stack = [], pc = 2, regOffset = 0 \<rparr>"
  have c: "compile (block [leti ''a'' (add (con (Num 2)) (con (Num 2))),
                     leti ''b'' (add (con (Num 3)) (vari ''a''))]) = Inr ?fr"
    by code_simp
  have n: "VM_new ?fr = Inr ?m0" by code_simp
  have s: "steps 3 ?m0 = Inr ([True, True, False], ?m1)" by code_simp
  have u: "step_until_halt ?m0 = Inr ?m1" by code_simp
  have l: "scan (\<lambda>n. n = ''a'') (f_locals ?fr) 0 = Some 0"
    "scan (\<lambda>n. n = ''b'') (f_locals ?fr) 0 = Some 1" by simp_all
  have r: "js_get (regs ?m1) 0 = Val (Num 4)" "js_get (regs ?m1) 1 = Val (Num 7)"
    "length (regs ?m1) = 2"
    by (simp_all add: js_get_def)
  from c n s u l r show ?thesis by blast
qed





text \<open>
  C8. In the frame of a successful \<open>compile\<close>, every instruction writes a register
  below the frame's size, every non-negative operand is below the frame's size and every
  negative operand decodes to a position of the frame's pool; so no instruction of the
  frame, run on any machine over the frame, fails with an index error.
\<close>

theorem compiled_operands_in_range:
  assumes c: "compile n = Inr fr"
  shows "list_all (instr_in_range fr) (f_code fr) \<and>
     (\<forall>ins \<in> set (f_code fr). \<forall>x \<in> set (args_of ins).
        (0 \<le> x \<longrightarrow> x < f_size fr) \<and> (x < 0 \<longrightarrow> nat (- x - 1) < length (f_consts fr))) \<and>
     (\<forall>m ins e m'. fn m = fr \<and> ins \<in> set (f_code fr) \<and> do_instr ins m = Inl (e, m') \<longrightarrow>
        \<not> is_index_error e)"
proof -
  from c obtain g where g: "gen_do n CodeGen_new = Inr g" and fr: "fr = mkFrame g"
    by (auto simp: compile_def split: sum.splits)
  from gen_do_inv [OF g gen_inv_new]
  have mt: "- 1 \<le> maxTemp g" and ok: "list_all (instr_ok g) (g_code g)"
    by (simp_all add: gen_inv_def)
  have "instr_in_range (mkFrame g) (map_instr (resolve (length (g_locals g))) i)"
    if "i \<in> set (g_code g)" for i
    using ok that by (intro instr_ok_in_range [OF mt]) (simp add: list_all_iff)
  then have 1: "list_all (instr_in_range fr) (f_code fr)"
    unfolding fr by (auto simp: list_all_iff mkFrame_def)
  have 2: "(0 \<le> x \<longrightarrow> x < f_size fr) \<and> (x < 0 \<longrightarrow> nat (- x - 1) < length (f_consts fr))"
    if "ins \<in> set (f_code fr)" "x \<in> set (args_of ins)" for ins x
  proof -
    from 1 that(1) have "instr_in_range fr ins" by (simp add: list_all_iff)
    with that(2) have "operand_in_range fr x"
      by (cases ins) (auto simp: operand_in_range_def)
    then show ?thesis
      by (auto simp: operand_in_range_def reg_in_range_def const_in_range_def)
  qed
  have 3: "\<not> is_index_error e"
    if "fn m = fr" "ins \<in> set (f_code fr)" "do_instr ins m = Inl (e, m')" for m ins e m'
  proof -
    from 1 that(1,2) have "instr_in_range (fn m) ins" by (simp add: list_all_iff)
    from do_instr_in_range [OF this that(3)] show ?thesis .
  qed
  from 1 2 3 show ?thesis by blast
qed

theorem compiled_operands_in_range_witness:
  "\<exists>fr. compile testFn = Inr fr \<and> list_all (instr_in_range fr) (f_code fr)"
proof -
  have c: "compile testFn =
     Inr \<lparr> in_count = 0, out_count = 0, f_size = 4, f_consts = [Num 2, Num 3],
           f_locals = [''a'', ''b'', ''c''],
           f_code = [ADD 0 (- 1) (- 1), ADD 1 (- 2) 0, ADD 0 0 1, ADD 3 0 1, ADD 1 1 3,
                     MOVE 2 1] \<rparr>"
    by code_simp
  from compiled_operands_in_range [OF c] c show ?thesis by blast
qed

end
